theory Spec2Isabelle
  imports Complex_Main
begin

section \<open>GSM8K answer extraction and reward scoring (reward.py)\<close>

text \<open>
  A shallow embedding of \<^verbatim>\<open>reward.py\<close>. A Python \<^verbatim>\<open>str\<close> is a \<open>string\<close>, one
  \<open>char\<close> for each character (code point) of the text, so that \<open>length\<close> is Python's
  \<^verbatim>\<open>len\<close>; the code only ever compares a character with the ASCII characters
  \<^verbatim>\<open>#\<close>, space, \<^verbatim>\<open>-\<close>, \<^verbatim>\<open>0\<close> to \<^verbatim>\<open>9\<close>, \<^verbatim>\<open>.\<close>, \<^verbatim>\<open>,\<close> and \<^verbatim>\<open>$\<close>, and counts
  characters. The arguments have the types of the source's annotations: texts and the
  method are strings, the batch arguments are lists of strings.
  A reward is a \<open>real\<close>: the code does no arithmetic on rewards, it hands back one of
  its constants or one of its arguments. An exception is the \<open>Inl\<close> of a sum.
\<close>

subsection \<open>Constants\<close>

definition SOLUTION_CLIP_CHARS :: nat where
  "SOLUTION_CLIP_CHARS = 300"

definition INVALID_ANSWERS :: "string list" where
  "INVALID_ANSWERS = ['''', ''.'']"

definition REWARD_CORRECT :: real where
  "REWARD_CORRECT = 1.0"

definition REWARD_FORMAT_CORRECT :: real where
  "REWARD_FORMAT_CORRECT = 0.3"

definition REWARD_NO_ANSWER :: real where
  "REWARD_NO_ANSWER = - 0.3"

definition REWARD_WRONG :: real where
  "REWARD_WRONG = 0.0"

subsection \<open>Exceptions\<close>

datatype error =
    InvalidMethod string    \<comment> \<open>the \<^verbatim>\<open>ValueError\<close> of \<^verbatim>\<open>extract_solution\<close>, with the method it got\<close>
  | LengthMismatch nat nat  \<comment> \<open>the \<^verbatim>\<open>ValueError\<close> of \<^verbatim>\<open>trl_reward_fn\<close>, with both lengths\<close>
  | OtherException          \<comment> \<open>any other \<^verbatim>\<open>Exception\<close>\<close>

subsection \<open>The two patterns under \<^verbatim>\<open>re.findall\<close>\<close>

text \<open>
  The character class \<^verbatim>\<open>[0-9\.\,]\<close> shared by both patterns.
\<close>

definition answer_char :: "char \<Rightarrow> bool" where
  "answer_char c = (c \<in> set ''0123456789.,'')"

text \<open>
  \<^verbatim>\<open>(\-?[0-9\.\,]+)\<close> matched at the head of a string: the captured group and the
  text left after it, or \<open>None\<close> when the pattern does not match there. Both quantifiers
  are greedy. The optional minus is tried first; when no class character follows it the
  engine backtracks to the empty alternative, where the class must match the minus
  itself and cannot. Without a leading minus the group is the longest run of class
  characters, which has to be non-empty.
\<close>

definition match_answer :: "string \<Rightarrow> (string \<times> string) option" where
  "match_answer s =
     (case s of
        [] \<Rightarrow> None
      | c # cs \<Rightarrow>
          if c = CHR ''-'' \<and> takeWhile answer_char cs \<noteq> []
          then Some (c # takeWhile answer_char cs, dropWhile answer_char cs)
          else if takeWhile answer_char s \<noteq> []
          then Some (takeWhile answer_char s, dropWhile answer_char s)
          else None)"

text \<open>
  \<^verbatim>\<open>#### (\-?[0-9\.\,]+)\<close> matched at the head of a string: the literal marker (four
  hashes and one space), then the group.
\<close>

definition match_strict :: "string \<Rightarrow> (string \<times> string) option" where
  "match_strict s =
     (if take 5 s = ''#### '' then match_answer (drop 5 s) else None)"

lemma match_answer_shorter:
  "match_answer s = Some (tok, rest) \<Longrightarrow> length rest < length s"
  by (auto simp: match_answer_def less_Suc_eq_le length_dropWhile_le
           split: list.splits if_splits)

lemma match_strict_shorter:
  "match_strict s = Some (tok, rest) \<Longrightarrow> length rest < length s"
  by (auto simp: match_strict_def dest!: match_answer_shorter split: if_splits)

text \<open>
  \<^verbatim>\<open>re.findall(pattern, s)\<close> with one group: the groups of the non-overlapping
  matches, left to right. A match found at the current position resumes the scan right
  after it (no match of these patterns is empty); otherwise the scan moves one character
  on.
\<close>

function findall_strict :: "string \<Rightarrow> string list" where
  "findall_strict [] = []"
| "findall_strict (c # cs) =
     (case match_strict (c # cs) of
        Some (tok, rest) \<Rightarrow> tok # findall_strict rest
      | None \<Rightarrow> findall_strict cs)"
  by pat_completeness auto
termination
  by (relation "measure length") (auto dest: match_strict_shorter)

function findall_flexible :: "string \<Rightarrow> string list" where
  "findall_flexible [] = []"
| "findall_flexible (c # cs) =
     (case match_answer (c # cs) of
        Some (tok, rest) \<Rightarrow> tok # findall_flexible rest
      | None \<Rightarrow> findall_flexible cs)"
  by pat_completeness auto
termination
  by (relation "measure length") (auto dest: match_answer_shorter)

subsection \<open>\<^verbatim>\<open>extract_solution\<close>\<close>

text \<open>\<^verbatim>\<open>solution_str[-300:]\<close> when the text is longer than 300 characters.\<close>

definition clip :: "string \<Rightarrow> string" where
  "clip solution_str =
     (if length solution_str > SOLUTION_CLIP_CHARS
      then drop (length solution_str - SOLUTION_CLIP_CHARS) solution_str
      else solution_str)"

text \<open>\<^verbatim>\<open>s.replace(c, "")\<close> for a single character \<open>c\<close>.\<close>

definition remove_char :: "char \<Rightarrow> string \<Rightarrow> string" where
  "remove_char c s = filter (\<lambda>x. x \<noteq> c) s"

text \<open>\<^verbatim>\<open>.replace(",", "").replace("$", "")\<close>\<close>

definition clean_answer :: "string \<Rightarrow> string" where
  "clean_answer a = remove_char (CHR ''$'') (remove_char (CHR '','') a)"

text \<open>
  The loop of the flexible branch over \<^verbatim>\<open>reversed(answers)\<close>: \<^verbatim>\<open>final_answer\<close>
  starts as \<^verbatim>\<open>None\<close> and the loop breaks at the first answer that is not in
  \<^verbatim>\<open>_INVALID_ANSWERS\<close>.
\<close>

fun first_valid :: "string list \<Rightarrow> string option" where
  "first_valid [] = None"
| "first_valid (answer # answers) =
     (if answer \<notin> set INVALID_ANSWERS then Some answer else first_valid answers)"

text \<open>
  \<^verbatim>\<open>extract_solution(solution_str, method)\<close>. Both patterns are well-formed constants,
  so \<^verbatim>\<open>re.findall\<close> raises no \<^verbatim>\<open>re.error\<close> and the handler of the \<^verbatim>\<open>try\<close> is
  never entered.
\<close>

definition extract_solution :: "string \<Rightarrow> string \<Rightarrow> error + string option" where
  "extract_solution solution_str method =
     (if method \<notin> set [''strict'', ''flexible''] then Inl (InvalidMethod method)
      else if solution_str = [] then Inr None
      else
        let s = clip solution_str in
        if method = ''strict'' then
          (let solutions = findall_strict s in
           if solutions = [] then Inr None
           else Inr (Some (clean_answer (last solutions))))
        else
          (let answers = findall_flexible s in
           if answers = [] then Inr None
           else Inr (first_valid (rev answers))))"

subsection \<open>\<^verbatim>\<open>compute_score\<close>\<close>

definition compute_score :: "string \<Rightarrow> string \<Rightarrow> string \<Rightarrow> real \<Rightarrow> real \<Rightarrow> error + real" where
  "compute_score solution_str ground_truth method format_score score =
     (if solution_str = [] \<or> ground_truth = [] then Inr REWARD_NO_ANSWER
      else
        case extract_solution solution_str method of
          Inl e \<Rightarrow> Inl e
        | Inr None \<Rightarrow> Inr REWARD_NO_ANSWER
        | Inr (Some answer) \<Rightarrow>
            if answer = ground_truth then Inr score else Inr format_score)"

subsection \<open>\<^verbatim>\<open>trl_reward_fn\<close>\<close>

text \<open>
  The body of the \<^verbatim>\<open>try\<close>: the loop over \<^verbatim>\<open>zip(completions, solution)\<close> that appends
  one score to \<^verbatim>\<open>rewards\<close> per pair and stops at the first exception. The scoring call
  is a parameter \<open>sc\<close>, so that the handler can be exercised with a call that fails.
\<close>

fun score_loop ::
  "(string \<Rightarrow> string \<Rightarrow> error + real) \<Rightarrow> (string \<times> string) list \<Rightarrow> real list
     \<Rightarrow> error + real list" where
  "score_loop sc [] rewards = Inr rewards"
| "score_loop sc ((model_answer, gt) # pairs) rewards =
     (case sc model_answer gt of
        Inl e \<Rightarrow> Inl e
      | Inr score \<Rightarrow> score_loop sc pairs (rewards @ [score]))"

text \<open>
  The function around the loop: the length check, the early return on empty input, and
  the \<^verbatim>\<open>except Exception\<close> handler that replaces \<^verbatim>\<open>rewards\<close> by
  \<^verbatim>\<open>[REWARD_NO_ANSWER] * len(completions)\<close>.
\<close>

definition reward_batch ::
  "(string \<Rightarrow> string \<Rightarrow> error + real) \<Rightarrow> string list \<Rightarrow> string list \<Rightarrow> string list
     \<Rightarrow> error + real list" where
  "reward_batch sc prompts completions solution =
     (if length completions \<noteq> length solution
      then Inl (LengthMismatch (length completions) (length solution))
      else if completions = [] then Inr []
      else
        case score_loop sc (zip completions solution) [] of
          Inl e \<Rightarrow> Inr (replicate (length completions) REWARD_NO_ANSWER)
        | Inr rewards \<Rightarrow> Inr rewards)"

text \<open>The scoring call of the source: strict mode and the two default rewards.\<close>

definition strict_score :: "string \<Rightarrow> string \<Rightarrow> error + real" where
  "strict_score model_answer gt =
     compute_score model_answer gt ''strict'' REWARD_FORMAT_CORRECT REWARD_CORRECT"

definition trl_reward_fn :: "string list \<Rightarrow> string list \<Rightarrow> string list \<Rightarrow> error + real list" where
  "trl_reward_fn prompts completions solution =
     reward_batch strict_score prompts completions solution"

subsection \<open>Vocabulary of the properties\<close>

text \<open>
  A whole string that the group \<^verbatim>\<open>(\-?[0-9\.\,]+)\<close> matches: an optional minus, then
  one or more class characters.
\<close>

definition answer_token :: "string \<Rightarrow> bool" where
  "answer_token tok =
     (case tok of
        [] \<Rightarrow> False
      | c # cs \<Rightarrow> (c = CHR ''-'' \<and> cs \<noteq> [] \<and> list_all answer_char cs) \<or> list_all answer_char tok)"

text \<open>
  A scoring call that raises on one completion and is the source's call on every other
  one. On strings the source's call raises nothing, so the handler of
  \<^verbatim>\<open>trl_reward_fn\<close> is exercised with this call.
\<close>

definition faulty_score :: "string \<Rightarrow> string \<Rightarrow> error + real" where
  "faulty_score model_answer gt =
     (if model_answer = ''boom'' then Inl OtherException else strict_score model_answer gt)"

section \<open>Properties\<close>

subsection \<open>Auxiliary facts\<close>

lemmas reward_values =
  REWARD_CORRECT_def REWARD_FORMAT_CORRECT_def REWARD_NO_ANSWER_def REWARD_WRONG_def

lemmas run_defs =
  extract_solution_def clip_def SOLUTION_CLIP_CHARS_def match_strict_def match_answer_def
  answer_char_def clean_answer_def remove_char_def INVALID_ANSWERS_def

lemma clip_Nil_iff: "clip t = [] \<longleftrightarrow> t = []"
  by (auto simp: clip_def SOLUTION_CLIP_CHARS_def)

lemma length_clip: "length (clip t) = min (length t) SOLUTION_CLIP_CHARS"
  by (simp add: clip_def)

lemma clip_idem: "clip (clip t) = clip t"
  by (simp add: clip_def)

lemma clip_suffix: "clip t = drop (length t - min (length t) SOLUTION_CLIP_CHARS) t"
  by (simp add: clip_def)

lemma clip_short: "length t \<le> SOLUTION_CLIP_CHARS \<Longrightarrow> clip t = t"
  by (simp add: clip_def)

lemma extract_strict:
  "extract_solution t ''strict'' =
     (if findall_strict (clip t) = [] then Inr None
      else Inr (Some (clean_answer (last (findall_strict (clip t))))))"
  by (cases "t = []") (simp_all add: extract_solution_def Let_def clip_def)

lemma extract_flexible:
  "extract_solution t ''flexible'' = Inr (first_valid (rev (findall_flexible (clip t))))"
  by (cases "t = []") (simp_all add: extract_solution_def Let_def clip_def)

lemma extract_invalid:
  "m \<noteq> ''strict'' \<Longrightarrow> m \<noteq> ''flexible'' \<Longrightarrow> extract_solution t m = Inl (InvalidMethod m)"
  by (simp add: extract_solution_def)

lemma extract_clip: "extract_solution (clip t) m = extract_solution t m"
  by (simp add: extract_solution_def clip_idem clip_Nil_iff)

lemma first_valid_find:
  "first_valid xs = List.find (\<lambda>a. a \<notin> set INVALID_ANSWERS) xs"
  by (induction xs) simp_all

lemma strict_occurs_iff:
  "findall_strict t \<noteq> [] \<longleftrightarrow> (\<exists>k. match_strict (drop k t) \<noteq> None)"
proof (induction t rule: findall_strict.induct)
  case 1
  show ?case by (simp add: match_strict_def)
next
  case (2 c cs)
  show ?case
  proof (cases "match_strict (c # cs)")
    case None
    have "(\<exists>k. match_strict (drop k (c # cs)) \<noteq> None) \<longleftrightarrow> (\<exists>k. match_strict (drop k cs) \<noteq> None)"
    proof
      assume "\<exists>k. match_strict (drop k (c # cs)) \<noteq> None"
      then obtain k where k: "match_strict (drop k (c # cs)) \<noteq> None" ..
      with None obtain k' where "k = Suc k'" by (cases k) auto
      with k show "\<exists>k. match_strict (drop k cs) \<noteq> None" by auto
    next
      assume "\<exists>k. match_strict (drop k cs) \<noteq> None"
      then obtain k where "match_strict (drop (Suc k) (c # cs)) \<noteq> None" by auto
      then show "\<exists>k. match_strict (drop k (c # cs)) \<noteq> None" ..
    qed
    moreover from None have "findall_strict cs \<noteq> [] \<longleftrightarrow> (\<exists>k. match_strict (drop k cs) \<noteq> None)"
      by (rule "2.IH"(1))
    moreover from None have "findall_strict (c # cs) = findall_strict cs" by simp
    ultimately show ?thesis by simp
  next
    case (Some p)
    then have "match_strict (drop 0 (c # cs)) \<noteq> None" by simp
    then have "\<exists>k. match_strict (drop k (c # cs)) \<noteq> None" ..
    with Some show ?thesis by (auto split: prod.splits)
  qed
qed

lemma findall_strict_drop:
  assumes "findall_strict t = []" shows "findall_strict (drop n t) = []"
proof (rule ccontr)
  assume "findall_strict (drop n t) \<noteq> []"
  then obtain k where "match_strict (drop k (drop n t)) \<noteq> None"
    unfolding strict_occurs_iff ..
  then have "match_strict (drop (k + n) t) \<noteq> None" by simp
  then have "findall_strict t \<noteq> []" unfolding strict_occurs_iff ..
  with assms show False by simp
qed

lemma findall_strict_clip: "findall_strict t = [] \<Longrightarrow> findall_strict (clip t) = []"
  by (simp add: clip_def findall_strict_drop)

lemma findall_strict_no_hash:
  "CHR ''#'' \<notin> set t \<Longrightarrow> findall_strict t = []"
proof (induction t rule: findall_strict.induct)
  case 1
  show ?case by simp
next
  case (2 c cs)
  from "2.prems" have "match_strict (c # cs) = None"
    by (auto simp: match_strict_def)
  with 2 show ?case by simp
qed

lemma takeWhile_prefix_nonempty:
  "cs \<noteq> [] \<Longrightarrow> list_all P cs \<Longrightarrow> takeWhile P (cs @ post) \<noteq> []"
  by (cases cs) simp_all

lemma list_all_takeWhile: "list_all P (takeWhile P xs)"
  by (auto simp: list_all_iff dest: set_takeWhileD)

lemma answer_token_run: "run \<noteq> [] \<Longrightarrow> list_all answer_char run \<Longrightarrow> answer_token run"
  by (cases run) (simp_all add: answer_token_def)

lemma match_answer_SomeD:
  assumes "match_answer s = Some (tok, rest)"
  shows "s = tok @ rest \<and> answer_token tok"
proof (cases s)
  case Nil
  with assms show ?thesis by (simp add: match_answer_def)
next
  case (Cons c cs)
  show ?thesis
  proof (cases "c = CHR ''-'' \<and> takeWhile answer_char cs \<noteq> []")
    case True
    with assms Cons have tok: "tok = c # takeWhile answer_char cs"
      and rest: "rest = dropWhile answer_char cs"
      by (simp_all add: match_answer_def)
    from tok rest Cons have "s = tok @ rest" by simp
    moreover from True tok have "answer_token tok"
      by (simp add: answer_token_def list_all_takeWhile)
    ultimately show ?thesis ..
  next
    case False
    with assms Cons have run: "takeWhile answer_char s \<noteq> []"
      and tok: "tok = takeWhile answer_char s" and rest: "rest = dropWhile answer_char s"
      by (auto simp: match_answer_def split: if_splits)
    from tok rest have "s = tok @ rest" by simp
    moreover from run tok have "answer_token tok"
      by (simp add: answer_token_run list_all_takeWhile)
    ultimately show ?thesis ..
  qed
qed

lemma match_answer_Some_iff:
  "match_answer s \<noteq> None \<longleftrightarrow> (\<exists>tok post. s = tok @ post \<and> answer_token tok)"
proof
  assume "match_answer s \<noteq> None"
  then obtain tok rest where "match_answer s = Some (tok, rest)" by auto
  then have "s = tok @ rest \<and> answer_token tok" by (rule match_answer_SomeD)
  then show "\<exists>tok post. s = tok @ post \<and> answer_token tok" by blast
next
  assume "\<exists>tok post. s = tok @ post \<and> answer_token tok"
  then obtain tok post where s: "s = tok @ post" and t: "answer_token tok" by blast
  from t obtain c cs where tok: "tok = c # cs" by (cases tok) (auto simp: answer_token_def)
  from t tok consider "c = CHR ''-''" "cs \<noteq> []" "list_all answer_char cs" | "list_all answer_char (c # cs)"
    by (auto simp: answer_token_def)
  then show "match_answer s \<noteq> None"
  proof cases
    case 1
    then have "takeWhile answer_char (cs @ post) \<noteq> []" by (simp add: takeWhile_prefix_nonempty)
    with 1 s tok show ?thesis by (simp add: match_answer_def)
  next
    case 2
    then have "takeWhile answer_char ((c # cs) @ post) \<noteq> []" by simp
    with s tok show ?thesis by (simp add: match_answer_def)
  qed
qed

lemma match_strict_Some_iff:
  "match_strict s \<noteq> None \<longleftrightarrow> (\<exists>tok post. s = ''#### '' @ tok @ post \<and> answer_token tok)"
proof
  assume "match_strict s \<noteq> None"
  then have t: "take 5 s = ''#### ''" and m: "match_answer (drop 5 s) \<noteq> None"
    by (auto simp: match_strict_def split: if_splits)
  from m obtain tok post where "drop 5 s = tok @ post" and a: "answer_token tok"
    unfolding match_answer_Some_iff by blast
  with t have "s = ''#### '' @ tok @ post"
    by (metis append_take_drop_id)
  with a show "\<exists>tok post. s = ''#### '' @ tok @ post \<and> answer_token tok" by blast
next
  assume "\<exists>tok post. s = ''#### '' @ tok @ post \<and> answer_token tok"
  then obtain tok post where s: "s = ''#### '' @ tok @ post" and a: "answer_token tok" by blast
  from a have "match_answer (tok @ post) \<noteq> None"
    unfolding match_answer_Some_iff by blast
  with s show "match_strict s \<noteq> None" by (simp add: match_strict_def)
qed

lemma strict_occurrence_iff:
  "findall_strict t \<noteq> [] \<longleftrightarrow>
     (\<exists>pre tok post. t = pre @ ''#### '' @ tok @ post \<and> answer_token tok)"
proof
  assume "findall_strict t \<noteq> []"
  then obtain k where "match_strict (drop k t) \<noteq> None"
    unfolding strict_occurs_iff ..
  then obtain tok post where "drop k t = ''#### '' @ tok @ post" and a: "answer_token tok"
    unfolding match_strict_Some_iff by blast
  then have "t = take k t @ ''#### '' @ tok @ post"
    by (metis append_take_drop_id)
  with a show "\<exists>pre tok post. t = pre @ ''#### '' @ tok @ post \<and> answer_token tok" by blast
next
  assume "\<exists>pre tok post. t = pre @ ''#### '' @ tok @ post \<and> answer_token tok"
  then obtain pre tok post where t: "t = pre @ ''#### '' @ tok @ post" and a: "answer_token tok"
    by blast
  from a have "match_strict (''#### '' @ tok @ post) \<noteq> None"
    unfolding match_strict_Some_iff by blast
  with t have "match_strict (drop (length pre) t) \<noteq> None" by simp
  then show "findall_strict t \<noteq> []"
    unfolding strict_occurs_iff ..
qed

lemma strict_score_returns:
  "\<exists>r. strict_score c g = Inr r \<and> r \<in> {REWARD_NO_ANSWER, REWARD_FORMAT_CORRECT, REWARD_CORRECT}"
  by (simp add: strict_score_def compute_score_def extract_strict)

lemma score_loop_append:
  "\<forall>p \<in> set pairs. \<exists>r. sc (fst p) (snd p) = Inr r \<Longrightarrow>
   \<exists>rs. score_loop sc pairs acc = Inr (acc @ rs) \<and> map Inr rs = map (\<lambda>p. sc (fst p) (snd p)) pairs"
proof (induction pairs arbitrary: acc)
  case Nil
  show ?case by simp
next
  case (Cons p pairs)
  obtain c g where p: "p = (c, g)" by (cases p)
  from Cons.prems p obtain r where r: "sc c g = Inr r" by auto
  from Cons.prems have "\<forall>p \<in> set pairs. \<exists>r. sc (fst p) (snd p) = Inr r" by simp
  from Cons.IH [OF this, of "acc @ [r]"]
  obtain rs where "score_loop sc pairs (acc @ [r]) = Inr ((acc @ [r]) @ rs)"
    and "map Inr rs = map (\<lambda>p. sc (fst p) (snd p)) pairs" by blast
  with p r have "score_loop sc (p # pairs) acc = Inr (acc @ (r # rs))
     \<and> map Inr (r # rs) = map (\<lambda>p. sc (fst p) (snd p)) (p # pairs)" by simp
  then show ?case by blast
qed

lemma score_loop_fails:
  "\<exists>p \<in> set pairs. isl (sc (fst p) (snd p)) \<Longrightarrow> \<exists>e. score_loop sc pairs acc = Inl e"
proof (induction pairs arbitrary: acc)
  case Nil
  then show ?case by simp
next
  case (Cons p pairs)
  obtain c g where p: "p = (c, g)" by (cases p)
  show ?case
  proof (cases "sc c g")
    case (Inl e)
    with p show ?thesis by simp
  next
    case (Inr r)
    with Cons.prems p have "\<exists>p \<in> set pairs. isl (sc (fst p) (snd p))" by auto
    from Cons.IH [OF this, of "acc @ [r]"] p Inr show ?thesis by simp
  qed
qed

lemma find_rev_Some:
  "List.find P (rev xs) = Some a \<longleftrightarrow>
     (\<exists>pre post. xs = pre @ a # post \<and> P a \<and> (\<forall>b \<in> set post. \<not> P b))"
proof (induction xs rule: rev_induct)
  case Nil
  show ?case by simp
next
  case (snoc x xs)
  show ?case
  proof (cases "P x")
    case True
    have "(\<exists>pre post. xs @ [x] = pre @ a # post \<and> P a \<and> (\<forall>b \<in> set post. \<not> P b)) \<longleftrightarrow> a = x"
    proof
      assume "\<exists>pre post. xs @ [x] = pre @ a # post \<and> P a \<and> (\<forall>b \<in> set post. \<not> P b)"
      then obtain pre post where eq: "xs @ [x] = pre @ a # post" and np: "\<forall>b \<in> set post. \<not> P b"
        by blast
      show "a = x"
      proof (cases post rule: rev_cases)
        case Nil
        with eq show ?thesis by simp
      next
        case (snoc post' y)
        with eq have "y = x" by simp
        with snoc np True show ?thesis by simp
      qed
    next
      assume "a = x"
      with True have "xs @ [x] = xs @ a # [] \<and> P a \<and> (\<forall>b \<in> set []. \<not> P b)" by simp
      then show "\<exists>pre post. xs @ [x] = pre @ a # post \<and> P a \<and> (\<forall>b \<in> set post. \<not> P b)"
        by blast
    qed
    with True show ?thesis by auto
  next
    case False
    have "(\<exists>pre post. xs @ [x] = pre @ a # post \<and> P a \<and> (\<forall>b \<in> set post. \<not> P b))
      \<longleftrightarrow> (\<exists>pre post. xs = pre @ a # post \<and> P a \<and> (\<forall>b \<in> set post. \<not> P b))"
    proof
      assume "\<exists>pre post. xs @ [x] = pre @ a # post \<and> P a \<and> (\<forall>b \<in> set post. \<not> P b)"
      then obtain pre post where eq: "xs @ [x] = pre @ a # post" and pa: "P a"
        and np: "\<forall>b \<in> set post. \<not> P b" by blast
      show "\<exists>pre post. xs = pre @ a # post \<and> P a \<and> (\<forall>b \<in> set post. \<not> P b)"
      proof (cases post rule: rev_cases)
        case Nil
        with eq have "a = x" by simp
        with pa False show ?thesis by simp
      next
        case (snoc post' y)
        with eq have "xs = pre @ a # post'" by simp
        moreover from snoc np have "\<forall>b \<in> set post'. \<not> P b" by simp
        ultimately show ?thesis using pa by blast
      qed
    next
      assume "\<exists>pre post. xs = pre @ a # post \<and> P a \<and> (\<forall>b \<in> set post. \<not> P b)"
      then obtain pre post where "xs = pre @ a # post" and "P a" and "\<forall>b \<in> set post. \<not> P b"
        by blast
      with False have "xs @ [x] = pre @ a # (post @ [x]) \<and> P a \<and> (\<forall>b \<in> set (post @ [x]). \<not> P b)"
        by simp
      then show "\<exists>pre post. xs @ [x] = pre @ a # post \<and> P a \<and> (\<forall>b \<in> set post. \<not> P b)"
        by blast
    qed
    with False snoc.IH show ?thesis by simp
  qed
qed

lemma find_rev_None: "List.find P (rev xs) = None \<longleftrightarrow> (\<forall>b \<in> set xs. \<not> P b)"
  by (auto simp: find_None_iff)

lemma findall_flexible_skip:
  "\<not> answer_char c \<Longrightarrow> c \<noteq> CHR ''-'' \<Longrightarrow>
     findall_flexible (replicate n c @ s) = findall_flexible s"
proof (induction n)
  case 0
  show ?case by simp
next
  case (Suc n)
  then have "match_answer (c # replicate n c @ s) = None"
    by (simp add: match_answer_def)
  with Suc show ?case by simp
qed

lemma findall_flexible_tokens:
  "tok \<in> set (findall_flexible s) \<Longrightarrow> answer_token tok"
proof (induction s rule: findall_flexible.induct)
  case 1
  then show ?case by simp
next
  case (2 c cs)
  show ?case
  proof (cases "match_answer (c # cs)")
    case None
    with "2.prems" have "tok \<in> set (findall_flexible cs)" by simp
    with None show ?thesis by (rule "2.IH"(1))
  next
    case (Some p)
    obtain tok' rest where p: "p = (tok', rest)" by (cases p)
    with Some have m: "match_answer (c # cs) = Some (tok', rest)" by simp
    with "2.prems" have "tok = tok' \<or> tok \<in> set (findall_flexible rest)" by simp
    then show ?thesis
    proof
      assume "tok = tok'"
      with match_answer_SomeD [OF m] show ?thesis by simp
    next
      assume "tok \<in> set (findall_flexible rest)"
      with m show ?thesis by (rule "2.IH"(2) [OF _ refl])
    qed
  qed
qed

lemma answer_token_nonempty: "answer_token tok \<Longrightarrow> tok \<noteq> []"
  by (auto simp: answer_token_def)

lemma compute_score_range:
  assumes "m = ''strict'' \<or> m = ''flexible'' \<or> c = [] \<or> g = []"
  shows "\<exists>r. compute_score c g m format_reward correct_reward = Inr r
           \<and> r \<in> {REWARD_NO_ANSWER, format_reward, correct_reward}"
proof (cases "c = [] \<or> g = []")
  case True
  then show ?thesis by (auto simp: compute_score_def)
next
  case False
  with assms consider "m = ''strict''" | "m = ''flexible''" by blast
  then show ?thesis
  proof cases
    case 1
    with False show ?thesis by (simp add: compute_score_def extract_strict)
  next
    case 2
    with False show ?thesis
      by (cases "first_valid (rev (findall_flexible (clip c)))")
         (simp_all add: compute_score_def extract_flexible)
  qed
qed

subsection \<open>The three reward tiers\<close>

text \<open>
  Claim C1. When the completion and the ground truth are both non-empty,
  \<^verbatim>\<open>compute_score\<close> returns \<^verbatim>\<open>REWARD_NO_ANSWER\<close> (-0.3) when the extraction finds no
  answer, the \<open>correct_reward\<close> argument (default 1.0) when the extracted answer is the
  ground truth as a string, and the \<open>format_reward\<close> argument (default 0.3) when the
  extracted answer is a different string.
\<close>

theorem compute_score_three_tiers:
  assumes "c \<noteq> []" and "g \<noteq> []"
  shows "(extract_solution c m = Inr None \<longrightarrow>
            compute_score c g m format_reward correct_reward = Inr REWARD_NO_ANSWER)
       \<and> (extract_solution c m = Inr (Some g) \<longrightarrow>
            compute_score c g m format_reward correct_reward = Inr correct_reward)
       \<and> (\<forall>a. extract_solution c m = Inr (Some a) \<and> a \<noteq> g \<longrightarrow>
            compute_score c g m format_reward correct_reward = Inr format_reward)
       \<and> REWARD_NO_ANSWER = - 0.3 \<and> REWARD_FORMAT_CORRECT = 0.3 \<and> REWARD_CORRECT = 1.0"
  using assms by (simp add: compute_score_def reward_values)

theorem compute_score_three_tiers_witness:
  "compute_score ''no answer here'' ''42'' ''strict'' REWARD_FORMAT_CORRECT REWARD_CORRECT = Inr REWARD_NO_ANSWER
 \<and> compute_score ''#### 42'' ''42'' ''strict'' REWARD_FORMAT_CORRECT REWARD_CORRECT = Inr REWARD_CORRECT
 \<and> compute_score ''#### 41'' ''42'' ''strict'' REWARD_FORMAT_CORRECT REWARD_CORRECT = Inr REWARD_FORMAT_CORRECT"
proof -
  have e1: "extract_solution ''no answer here'' ''strict'' = Inr None"
    by (simp add: run_defs)
  have e2: "extract_solution ''#### 42'' ''strict'' = Inr (Some ''42'')"
    by (simp add: run_defs)
  have e3: "extract_solution ''#### 41'' ''strict'' = Inr (Some ''41'') \<and> ''41'' \<noteq> ''42''"
    by (simp add: run_defs)
  have ne: "''no answer here'' \<noteq> []" "''#### 42'' \<noteq> []" "''#### 41'' \<noteq> []" "''42'' \<noteq> []"
    by simp_all
  from compute_score_three_tiers [OF ne(1) ne(4)] e1
  have "compute_score ''no answer here'' ''42'' ''strict'' REWARD_FORMAT_CORRECT REWARD_CORRECT = Inr REWARD_NO_ANSWER"
    by blast
  moreover from compute_score_three_tiers [OF ne(2) ne(4)] e2
  have "compute_score ''#### 42'' ''42'' ''strict'' REWARD_FORMAT_CORRECT REWARD_CORRECT = Inr REWARD_CORRECT"
    by blast
  moreover from compute_score_three_tiers [OF ne(3) ne(4)] e3
  have "compute_score ''#### 41'' ''42'' ''strict'' REWARD_FORMAT_CORRECT REWARD_CORRECT = Inr REWARD_FORMAT_CORRECT"
    by blast
  ultimately show ?thesis by blast
qed

subsection \<open>Strict extraction\<close>

text \<open>
  The strict pattern occurs in a text exactly when \<open>findall_strict\<close> finds a match in
  it (\<open>strict_occurrence_iff\<close>: the text is some prefix, the marker, a token that the
  group matches, and some rest).

  Claim C2 as stated fails on a text of 306 characters whose only marked answer lies
  before its last 300 characters: the text holds the occurrence \<^verbatim>\<open>#### 5\<close>, the
  extraction returns no answer.
\<close>

theorem extract_strict_clipped_away_counterexample:
  "findall_strict (''#### 5'' @ replicate 300 (CHR ''x'')) = [''5'']
   \<and> extract_solution (''#### 5'' @ replicate 300 (CHR ''x'')) ''strict'' = Inr None"
proof -
  have tail: "findall_strict (replicate 300 (CHR ''x'')) = []"
    by (rule findall_strict_no_hash) simp
  have "findall_strict (''#### 5'' @ replicate 300 (CHR ''x'')) = [''5'']"
    using tail by (simp add: match_strict_def match_answer_def answer_char_def takeWhile_replicate dropWhile_replicate)
  moreover have "clip (''#### 5'' @ replicate 300 (CHR ''x'')) = replicate 300 (CHR ''x'')"
    by (simp add: clip_def SOLUTION_CLIP_CHARS_def)
  ultimately show ?thesis
    using tail by (simp add: extract_strict)
qed

text \<open>
  Claim C2, on the clipped text. When the last 300 characters of the text hold one or
  more occurrences of the strict pattern, strict extraction returns the last of them
  with commas and dollar signs removed; so it does for a whole text of at most 300
  characters, and \<^verbatim>\<open>"The answer is #### 1,200"\<close> gives \<^verbatim>\<open>"1200"\<close>. When the last 300
  characters hold no occurrence, and so whenever the whole text holds none (no part of
  it is the marker followed by a token), the result is no answer.
\<close>

theorem extract_strict_last_in_clip:
  "(findall_strict (clip t) \<noteq> [] \<longrightarrow>
      extract_solution t ''strict'' = Inr (Some (clean_answer (last (findall_strict (clip t))))))
 \<and> (length t \<le> 300 \<and> findall_strict t \<noteq> [] \<longrightarrow>
      extract_solution t ''strict'' = Inr (Some (clean_answer (last (findall_strict t)))))
 \<and> extract_solution ''The answer is #### 1,200'' ''strict'' = Inr (Some ''1200'')
 \<and> (findall_strict (clip t) = [] \<longrightarrow> extract_solution t ''strict'' = Inr None)
 \<and> (findall_strict t = [] \<longrightarrow> extract_solution t ''strict'' = Inr None)
 \<and> ((\<nexists>pre tok post. t = pre @ ''#### '' @ tok @ post \<and> answer_token tok) \<longrightarrow>
      extract_solution t ''strict'' = Inr None)
 \<and> CHR '','' \<notin> set (clean_answer a) \<and> CHR ''$'' \<notin> set (clean_answer a)
 \<and> clean_answer a = filter (\<lambda>x. x \<noteq> CHR '','' \<and> x \<noteq> CHR ''$'') a"
proof -
  have "length t \<le> 300 \<Longrightarrow> clip t = t"
    by (simp add: clip_short SOLUTION_CLIP_CHARS_def)
  moreover have "extract_solution ''The answer is #### 1,200'' ''strict'' = Inr (Some ''1200'')"
    by (simp add: run_defs)
  moreover have "clean_answer a = filter (\<lambda>x. x \<noteq> CHR '','' \<and> x \<noteq> CHR ''$'') a"
    by (auto simp: clean_answer_def remove_char_def intro: filter_cong)
  moreover have "findall_strict t = []"
    if "\<nexists>pre tok post. t = pre @ ''#### '' @ tok @ post \<and> answer_token tok"
    using that unfolding strict_occurrence_iff [symmetric] by simp
  ultimately show ?thesis
    by (auto simp: extract_strict findall_strict_clip)
qed

theorem extract_strict_last_in_clip_witness:
  "extract_solution ''#### 1 then #### 2,000 then #### ,3$'' ''strict'' = Inr (Some ''3'')
   \<and> findall_strict ''#### 1 then #### 2,000 then #### ,3$'' = [''1'', ''2,000'', '',3'']
   \<and> extract_solution ''The answer is #### 1,200'' ''strict'' = Inr (Some ''1200'')
   \<and> extract_solution ''no marker 12'' ''strict'' = Inr None"
proof -
  have f1: "findall_strict ''#### 1 then #### 2,000 then #### ,3$'' = [''1'', ''2,000'', '',3'']"
    by (simp add: run_defs)
  have f2: "findall_strict ''no marker 12'' = []"
    by (simp add: run_defs)
  have c: "clean_answer '',3'' = ''3''"
    by (simp add: run_defs)
  show ?thesis
    using extract_strict_last_in_clip [of "''#### 1 then #### 2,000 then #### ,3$''"]
      extract_strict_last_in_clip [of "''no marker 12''"] f1 f2 c
    by simp
qed

subsection \<open>Batch scoring\<close>

text \<open>
  Claim C3. \<^verbatim>\<open>trl_reward_fn\<close> raises the length error when \<^verbatim>\<open>completions\<close> and
  \<^verbatim>\<open>solution\<close> differ in length, returns the empty list on empty lists, and for lists
  of equal length returns one reward per pair, in order: the reward at index \<open>i\<close> is the
  result of \<^verbatim>\<open>compute_score\<close> on the pair at index \<open>i\<close> in strict mode with the two
  default rewards.
\<close>

theorem trl_reward_fn_pairwise:
  "(length completions \<noteq> length solution \<longrightarrow>
      trl_reward_fn prompts completions solution
        = Inl (LengthMismatch (length completions) (length solution)))
 \<and> trl_reward_fn prompts [] [] = Inr []
 \<and> (length completions = length solution \<longrightarrow>
      (\<exists>rewards. trl_reward_fn prompts completions solution = Inr rewards
         \<and> length rewards = length completions
         \<and> (\<forall>i < length completions.
               compute_score (completions ! i) (solution ! i) ''strict''
                 REWARD_FORMAT_CORRECT REWARD_CORRECT = Inr (rewards ! i))))"
proof (intro conjI impI)
  assume "length completions \<noteq> length solution"
  then show "trl_reward_fn prompts completions solution
        = Inl (LengthMismatch (length completions) (length solution))"
    by (simp add: trl_reward_fn_def reward_batch_def)
next
  show "trl_reward_fn prompts [] [] = Inr []"
    by (simp add: trl_reward_fn_def reward_batch_def)
next
  assume len: "length completions = length solution"
  let ?pairs = "zip completions solution"
  have "\<forall>p \<in> set ?pairs. \<exists>r. strict_score (fst p) (snd p) = Inr r"
    using strict_score_returns by blast
  from score_loop_append [OF this, of "[]"]
  obtain rs where loop: "score_loop strict_score ?pairs [] = Inr rs"
    and rs: "map Inr rs = map (\<lambda>p. strict_score (fst p) (snd p)) ?pairs" by auto
  from rs have "length (map Inr rs :: (error + real) list) = length (map (\<lambda>p. strict_score (fst p) (snd p)) ?pairs)"
    by simp
  with len have lrs: "length rs = length completions" by simp
  have nth: "strict_score (completions ! i) (solution ! i) = Inr (rs ! i)"
    if "i < length completions" for i
  proof -
    from that lrs have "(map Inr rs :: (error + real) list) ! i = Inr (rs ! i)" by simp
    moreover from that len
    have "map (\<lambda>p. strict_score (fst p) (snd p)) ?pairs ! i = strict_score (completions ! i) (solution ! i)"
      by simp
    ultimately show ?thesis using rs by simp
  qed
  have "trl_reward_fn prompts completions solution = Inr rs"
  proof (cases "completions = []")
    case True
    with lrs len show ?thesis by (simp add: trl_reward_fn_def reward_batch_def)
  next
    case False
    with len loop show ?thesis by (simp add: trl_reward_fn_def reward_batch_def)
  qed
  with lrs nth show "\<exists>rewards. trl_reward_fn prompts completions solution = Inr rewards
         \<and> length rewards = length completions
         \<and> (\<forall>i < length completions.
               compute_score (completions ! i) (solution ! i) ''strict''
                 REWARD_FORMAT_CORRECT REWARD_CORRECT = Inr (rewards ! i))"
    by (auto simp: strict_score_def)
qed

theorem trl_reward_fn_pairwise_witness:
  "trl_reward_fn [''q1'', ''q2''] [''#### 42'', ''#### 24''] [''42'', ''24'']
     = Inr [REWARD_CORRECT, REWARD_CORRECT]
   \<and> trl_reward_fn [''q1''] [''#### 42''] [] = Inl (LengthMismatch 1 0)
   \<and> trl_reward_fn [] [] [] = Inr []"
proof -
  let ?cs = "[''#### 42'', ''#### 24'']" and ?gs = "[''42'', ''24'']"
  have s0: "compute_score ''#### 42'' ''42'' ''strict'' REWARD_FORMAT_CORRECT REWARD_CORRECT = Inr REWARD_CORRECT"
    by (simp add: compute_score_def run_defs)
  have s1: "compute_score ''#### 24'' ''24'' ''strict'' REWARD_FORMAT_CORRECT REWARD_CORRECT = Inr REWARD_CORRECT"
    by (simp add: compute_score_def run_defs)
  from trl_reward_fn_pairwise [of ?cs ?gs "[''q1'', ''q2'']"]
  obtain rewards where r: "trl_reward_fn [''q1'', ''q2''] ?cs ?gs = Inr rewards"
    and l: "length rewards = 2"
    and n: "\<forall>i < 2. compute_score (?cs ! i) (?gs ! i) ''strict''
                 REWARD_FORMAT_CORRECT REWARD_CORRECT = Inr (rewards ! i)"
    by auto
  from n [rule_format, of 0] s0 have "rewards ! 0 = REWARD_CORRECT" by simp
  moreover from n [rule_format, of 1] s1 have "rewards ! 1 = REWARD_CORRECT" by simp
  moreover from l obtain a b where "rewards = [a, b]"
    by (cases rewards; cases "tl rewards") auto
  ultimately have "rewards = [REWARD_CORRECT, REWARD_CORRECT]" by simp
  with r show ?thesis
    using trl_reward_fn_pairwise [of "[''#### 42'']" "[]" "[''q1'']"]
      trl_reward_fn_pairwise [of "[]" "[]" "[]"]
    by simp
qed

subsection \<open>Flexible extraction\<close>

text \<open>
  Claim C4. Flexible extraction looks only at the clipped text, the suffix of the text
  of length \<open>min (length t) 300\<close>. It takes all tokens that the flexible pattern finds
  there, each an optional minus sign followed by one or more of the digits, the point
  and the comma; it goes through them from the last one backward and returns the first
  one that is neither the empty string nor \<^verbatim>\<open>"."\<close>, so that the returned token is
  followed in the list only by tokens of that set. It returns no answer exactly when
  every token is in the set (in particular when there is no token). A token that lies
  before the last 300 characters is not seen, a minus sign directly before a token
  belongs to it.
\<close>

theorem extract_flexible_last_valid:
  assumes "toks = findall_flexible (drop (length t - min (length t) 300) t)"
  shows "extract_solution t ''flexible'' = Inr (List.find (\<lambda>a. a \<notin> {'''', ''.''}) (rev toks))
 \<and> (extract_solution t ''flexible'' = Inr (Some a) \<longleftrightarrow>
      (\<exists>pre post. toks = pre @ a # post \<and> a \<notin> {'''', ''.''}
          \<and> (\<forall>b \<in> set post. b \<in> {'''', ''.''})))
 \<and> (extract_solution t ''flexible'' = Inr None \<longleftrightarrow> (\<forall>b \<in> set toks. b \<in> {'''', ''.''}))
 \<and> (\<forall>tok \<in> set toks. answer_token tok)
 \<and> findall_flexible ''3-4 --5 - 6,7.'' = [''3'', ''-4'', ''-5'', ''6,7.'']
 \<and> extract_solution ''so x = -12 and .'' ''flexible'' = Inr (Some ''-12'')
 \<and> extract_solution (''7'' @ replicate 300 (CHR ''x'')) ''flexible'' = Inr None
 \<and> extract_solution (''-5 '' @ replicate 300 (CHR ''x'') @ ''8'') ''flexible'' = Inr (Some ''8'')"
proof -
  have toks: "toks = findall_flexible (clip t)"
    using assms by (simp add: clip_suffix SOLUTION_CLIP_CHARS_def)
  have inv: "(\<lambda>a. a \<notin> set INVALID_ANSWERS) = (\<lambda>a. a \<notin> {'''', ''.''})"
    by (simp add: INVALID_ANSWERS_def insert_commute)
  have eq: "extract_solution t ''flexible''
     = Inr (List.find (\<lambda>a. a \<notin> {'''', ''.''}) (rev toks))"
    by (simp only: extract_flexible first_valid_find inv toks)
  have scan: "(extract_solution t ''flexible'' = Inr (Some a) \<longleftrightarrow>
      (\<exists>pre post. toks = pre @ a # post \<and> a \<notin> {'''', ''.''}
          \<and> (\<forall>b \<in> set post. b \<in> {'''', ''.''})))
    \<and> (extract_solution t ''flexible'' = Inr None \<longleftrightarrow> (\<forall>b \<in> set toks. b \<in> {'''', ''.''}))"
    unfolding eq sum.inject find_rev_Some find_rev_None by simp
  have tokens: "\<forall>tok \<in> set toks. answer_token tok"
    unfolding toks by (blast intro: findall_flexible_tokens)
  have x: "\<not> answer_char (CHR ''x'')" "CHR ''x'' \<noteq> CHR ''-''"
    by (simp_all add: answer_char_def)
  have signed: "findall_flexible ''3-4 --5 - 6,7.'' = [''3'', ''-4'', ''-5'', ''6,7.'']"
    by (simp add: match_answer_def answer_char_def)
  have minus: "extract_solution ''so x = -12 and .'' ''flexible'' = Inr (Some ''-12'')"
    by (simp add: run_defs)
  have "clip (''7'' @ replicate 300 (CHR ''x'')) = replicate 300 (CHR ''x'') @ []"
    by (simp add: clip_def SOLUTION_CLIP_CHARS_def)
  then have "findall_flexible (clip (''7'' @ replicate 300 (CHR ''x''))) = []"
    by (simp only: findall_flexible_skip [OF x] findall_flexible.simps)
  then have far: "extract_solution (''7'' @ replicate 300 (CHR ''x'')) ''flexible'' = Inr None"
    by (simp add: extract_flexible)
  have "clip (''-5 '' @ replicate 300 (CHR ''x'') @ ''8'') = replicate 299 (CHR ''x'') @ ''8''"
    by (simp add: clip_def SOLUTION_CLIP_CHARS_def)
  then have "findall_flexible (clip (''-5 '' @ replicate 300 (CHR ''x'') @ ''8'')) = findall_flexible ''8''"
    by (simp only: findall_flexible_skip [OF x])
  then have near: "extract_solution (''-5 '' @ replicate 300 (CHR ''x'') @ ''8'') ''flexible'' = Inr (Some ''8'')"
    by (simp add: extract_flexible match_answer_def answer_char_def INVALID_ANSWERS_def)
  note scan1 = scan [THEN conjunct1] and scan2 = scan [THEN conjunct2]
  show ?thesis
    by (intro conjI)
      (fact eq, fact scan1, fact scan2, fact tokens, fact signed, fact minus, fact far, fact near)
qed

theorem extract_flexible_last_valid_witness:
  "extract_solution (''-12 '' @ replicate 300 (CHR ''x'') @ ''.'') ''flexible'' = Inr None
 \<and> findall_flexible (''-12 '' @ replicate 300 (CHR ''x'') @ ''.'') = [''-12'', ''.'']
 \<and> extract_solution (''9 '' @ replicate 295 (CHR ''x'') @ '' -12 .'') ''flexible''
      = Inr (Some ''-12'')
 \<and> findall_flexible (''9 '' @ replicate 295 (CHR ''x'') @ '' -12 .'') = [''9'', ''-12'', ''.'']"
proof -
  let ?t1 = "''-12 '' @ replicate 300 (CHR ''x'') @ ''.''"
  let ?t2 = "''9 '' @ replicate 295 (CHR ''x'') @ '' -12 .''"
  have x: "\<not> answer_char (CHR ''x'')" "CHR ''x'' \<noteq> CHR ''-''"
    by (simp_all add: answer_char_def)
  note skip = findall_flexible_skip [OF x]
  have d1: "drop (length ?t1 - min (length ?t1) 300) ?t1 = replicate 299 (CHR ''x'') @ ''.''"
    by simp
  have d2: "drop (length ?t2 - min (length ?t2) 300) ?t2 = replicate 294 (CHR ''x'') @ '' -12 .''"
    by simp
  have s1: "findall_flexible (replicate 299 (CHR ''x'') @ ''.'') = [''.'']"
    by (simp add: skip match_answer_def answer_char_def)
  have s2: "findall_flexible (replicate 294 (CHR ''x'') @ '' -12 .'') = [''-12'', ''.'']"
    by (simp add: skip match_answer_def answer_char_def)
  have w1: "findall_flexible ?t1 = [''-12'', ''.'']"
    by (simp add: skip match_answer_def answer_char_def)
  have w2: "findall_flexible ?t2 = [''9'', ''-12'', ''.'']"
    by (simp add: skip match_answer_def answer_char_def)
  have h1: "[''.''] = findall_flexible (drop (length ?t1 - min (length ?t1) 300) ?t1)"
    by (simp only: d1 s1)
  have h2: "[''-12'', ''.''] = findall_flexible (drop (length ?t2 - min (length ?t2) 300) ?t2)"
    by (simp only: d2 s2)
  from extract_flexible_last_valid [OF h1, THEN conjunct1]
  have e1: "extract_solution ?t1 ''flexible'' = Inr None"
    by simp
  from extract_flexible_last_valid [OF h2, THEN conjunct1]
  have e2: "extract_solution ?t2 ''flexible'' = Inr (Some ''-12'')"
    by simp
  show ?thesis
    by (intro conjI) (fact e1, fact w1, fact e2, fact w2)
qed

subsection \<open>The clip\<close>

text \<open>
  Claim C5. Only the last 300 characters of the text count: for every text \<open>t\<close> and
  every method, \<^verbatim>\<open>extract_solution\<close> gives the same result on \<open>t\<close> and on the suffix
  of \<open>t\<close> of length \<open>min (length t) 300\<close>.
\<close>

theorem extract_solution_trailing_300:
  "extract_solution (drop (length t - min (length t) 300) t) m = extract_solution t m"
proof -
  have "drop (length t - min (length t) 300) t = clip t"
    by (simp add: clip_suffix SOLUTION_CLIP_CHARS_def)
  then show ?thesis by (simp only: extract_clip)
qed

theorem extract_solution_trailing_300_witness:
  "extract_solution (''# 7'' @ replicate 297 (CHR ''x'')) ''strict''
     = extract_solution (''#### 7'' @ replicate 297 (CHR ''x'')) ''strict''
   \<and> extract_solution (''# 7'' @ replicate 297 (CHR ''x'')) ''flexible''
     = extract_solution (''#### 7'' @ replicate 297 (CHR ''x'')) ''flexible''"
proof -
  have "drop (length (''#### 7'' @ replicate 297 (CHR ''x''))
            - min (length (''#### 7'' @ replicate 297 (CHR ''x''))) 300)
          (''#### 7'' @ replicate 297 (CHR ''x''))
        = ''# 7'' @ replicate 297 (CHR ''x'')"
    by simp
  with extract_solution_trailing_300 [of "''#### 7'' @ replicate 297 (CHR ''x'')" "''strict''"]
    extract_solution_trailing_300 [of "''#### 7'' @ replicate 297 (CHR ''x'')" "''flexible''"]
  show ?thesis by simp
qed

subsection \<open>Empty inputs\<close>

text \<open>
  Claim C6. For both valid methods \<^verbatim>\<open>extract_solution\<close> returns no answer on the empty
  text. When the completion or the ground truth is empty, \<^verbatim>\<open>compute_score\<close> returns
  \<^verbatim>\<open>REWARD_NO_ANSWER\<close> (-0.3) for every method and every pair of reward arguments, also
  for a method on which the extraction would raise: the extraction is not attempted.
\<close>

theorem empty_input_no_answer:
  "(m \<in> {''strict'', ''flexible''} \<longrightarrow> extract_solution [] m = Inr None)
 \<and> (c = [] \<or> g = [] \<longrightarrow>
      compute_score c g m format_reward correct_reward = Inr REWARD_NO_ANSWER)
 \<and> REWARD_NO_ANSWER = - 0.3"
  by (auto simp: extract_solution_def compute_score_def REWARD_NO_ANSWER_def)

theorem empty_input_no_answer_witness:
  "extract_solution [] ''strict'' = Inr None
 \<and> extract_solution [] ''flexible'' = Inr None
 \<and> compute_score [] ''42'' ''strict'' REWARD_FORMAT_CORRECT REWARD_CORRECT = Inr REWARD_NO_ANSWER
 \<and> compute_score ''#### 42'' [] ''flexible'' REWARD_FORMAT_CORRECT REWARD_CORRECT = Inr REWARD_NO_ANSWER
 \<and> compute_score [] ''42'' ''neither'' REWARD_FORMAT_CORRECT REWARD_CORRECT = Inr REWARD_NO_ANSWER
 \<and> extract_solution [] ''neither'' = Inl (InvalidMethod ''neither'')"
proof -
  have x: "extract_solution [] ''neither'' = Inl (InvalidMethod ''neither'')"
    by (simp add: extract_solution_def)
  from empty_input_no_answer [of "''strict''" "[]" "''42''" REWARD_FORMAT_CORRECT REWARD_CORRECT]
  have a: "extract_solution [] ''strict'' = Inr None"
    and b: "compute_score [] ''42'' ''strict'' REWARD_FORMAT_CORRECT REWARD_CORRECT = Inr REWARD_NO_ANSWER"
    by simp_all
  from empty_input_no_answer [of "''flexible''" "''#### 42''" "[]" REWARD_FORMAT_CORRECT REWARD_CORRECT]
  have c: "extract_solution [] ''flexible'' = Inr None"
    and d: "compute_score ''#### 42'' [] ''flexible'' REWARD_FORMAT_CORRECT REWARD_CORRECT = Inr REWARD_NO_ANSWER"
    by simp_all
  from empty_input_no_answer [of "''neither''" "[]" "''42''" REWARD_FORMAT_CORRECT REWARD_CORRECT]
  have e: "compute_score [] ''42'' ''neither'' REWARD_FORMAT_CORRECT REWARD_CORRECT = Inr REWARD_NO_ANSWER"
    by simp
  from a b c d e x show ?thesis by blast
qed

subsection \<open>Invalid method\<close>

text \<open>
  Claim C7. For every text and every method that is neither \<^verbatim>\<open>"strict"\<close> nor
  \<^verbatim>\<open>"flexible"\<close>, \<^verbatim>\<open>extract_solution\<close> raises the invalid-method error: the result is
  that error, not a value. \<^verbatim>\<open>compute_score\<close> on non-empty inputs hands the error on to
  its caller.
\<close>

theorem invalid_method_raises:
  assumes "m \<noteq> ''strict''" and "m \<noteq> ''flexible''"
  shows "extract_solution t m = Inl (InvalidMethod m)
       \<and> (c \<noteq> [] \<and> g \<noteq> [] \<longrightarrow>
            compute_score c g m format_reward correct_reward = Inl (InvalidMethod m))"
  using assms by (simp add: extract_solution_def compute_score_def)

theorem invalid_method_raises_witness:
  "extract_solution ''#### 42'' ''Strict'' = Inl (InvalidMethod ''Strict'')
 \<and> extract_solution [] ''Strict'' = Inl (InvalidMethod ''Strict'')
 \<and> compute_score ''#### 42'' ''42'' ''Strict'' REWARD_FORMAT_CORRECT REWARD_CORRECT
      = Inl (InvalidMethod ''Strict'')"
proof -
  have m: "''Strict'' \<noteq> ''strict''" "''Strict'' \<noteq> ''flexible''"
    by simp_all
  from invalid_method_raises [OF m, of "''#### 42''" "''#### 42''" "''42''"]
    invalid_method_raises [OF m, of "[]"]
  show ?thesis by simp
qed

subsection \<open>The handler of the batch\<close>

text \<open>
  Claim C8. For non-empty lists of equal length, when the scoring call raises on some
  pair of the batch, the batch function raises nothing and returns a list as long as the
  input whose every element is \<^verbatim>\<open>REWARD_NO_ANSWER\<close> (-0.3); the rewards computed before
  the failure are dropped.
\<close>

theorem reward_batch_uniform_fallback:
  assumes "length completions = length solution" and "completions \<noteq> []"
    and "\<exists>i < length completions. isl (sc (completions ! i) (solution ! i))"
  shows "reward_batch sc prompts completions solution
           = Inr (replicate (length completions) REWARD_NO_ANSWER)
       \<and> REWARD_NO_ANSWER = - 0.3"
proof -
  from assms(3) obtain i where i: "i < length completions"
    and f: "isl (sc (completions ! i) (solution ! i))" by blast
  from i assms(1) have "(completions ! i, solution ! i) \<in> set (zip completions solution)"
    by (auto simp: set_zip)
  with f have "\<exists>p \<in> set (zip completions solution). isl (sc (fst p) (snd p))"
    by force
  then obtain e where "score_loop sc (zip completions solution) [] = Inl e"
    using score_loop_fails by blast
  with assms(1,2) show ?thesis
    by (simp add: reward_batch_def REWARD_NO_ANSWER_def)
qed

theorem reward_batch_uniform_fallback_witness:
  "reward_batch faulty_score [] [''#### 42'', ''boom'', ''#### 24''] [''42'', ''7'', ''24'']
     = Inr [REWARD_NO_ANSWER, REWARD_NO_ANSWER, REWARD_NO_ANSWER]
   \<and> faulty_score ''#### 42'' ''42'' = Inr REWARD_CORRECT
   \<and> faulty_score ''boom'' ''7'' = Inl OtherException"
proof -
  let ?cs = "[''#### 42'', ''boom'', ''#### 24'']" and ?gs = "[''42'', ''7'', ''24'']"
  have ok: "faulty_score ''#### 42'' ''42'' = Inr REWARD_CORRECT"
    by (simp add: faulty_score_def strict_score_def compute_score_def run_defs)
  have bad: "faulty_score ''boom'' ''7'' = Inl OtherException"
    by (simp add: faulty_score_def)
  have l: "length ?cs = length ?gs" and n: "?cs \<noteq> []"
    by simp_all
  from bad have "(1::nat) < length ?cs \<and> isl (faulty_score (?cs ! 1) (?gs ! 1))" by simp
  then have "\<exists>i < length ?cs. isl (faulty_score (?cs ! i) (?gs ! i))" ..
  from reward_batch_uniform_fallback [OF l n this, of "[]"]
  have "reward_batch faulty_score [] ?cs ?gs = Inr [REWARD_NO_ANSWER, REWARD_NO_ANSWER, REWARD_NO_ANSWER]"
    by (simp add: numeral_3_eq_3)
  with ok bad show ?thesis by blast
qed

subsection \<open>Placeholders in strict mode\<close>

text \<open>
  Claim C9. Strict extraction does not filter the values of \<^verbatim>\<open>_INVALID_ANSWERS\<close>:
  on \<^verbatim>\<open>"#### ."\<close> it returns \<^verbatim>\<open>"."\<close> and on \<^verbatim>\<open>"#### ,"\<close> it returns the empty
  string (the captured comma, with the comma removed), where flexible extraction returns
  no answer on \<^verbatim>\<open>"#### ."\<close>. For these completions \<^verbatim>\<open>compute_score\<close> in strict mode
  returns the format reward, not \<^verbatim>\<open>REWARD_NO_ANSWER\<close>, for every non-empty ground truth
  other than the extracted string.
\<close>

theorem strict_keeps_placeholders:
  "extract_solution ''#### .'' ''strict'' = Inr (Some ''.'')
 \<and> extract_solution ''#### ,'' ''strict'' = Inr (Some '''')
 \<and> ''.'' \<in> set INVALID_ANSWERS \<and> '''' \<in> set INVALID_ANSWERS
 \<and> extract_solution ''#### .'' ''flexible'' = Inr None
 \<and> (g \<noteq> [] \<and> g \<noteq> ''.'' \<longrightarrow>
      compute_score ''#### .'' g ''strict'' format_reward correct_reward = Inr format_reward)
 \<and> (g \<noteq> [] \<longrightarrow>
      compute_score ''#### ,'' g ''strict'' format_reward correct_reward = Inr format_reward)"
proof -
  have dot: "extract_solution ''#### .'' ''strict'' = Inr (Some ''.'')"
    by (simp add: run_defs)
  have comma: "extract_solution ''#### ,'' ''strict'' = Inr (Some '''')"
    by (simp add: run_defs)
  have flex: "extract_solution ''#### .'' ''flexible'' = Inr None"
    by (simp add: run_defs)
  have "g \<noteq> [] \<Longrightarrow> g \<noteq> ''.'' \<Longrightarrow>
      compute_score ''#### .'' g ''strict'' format_reward correct_reward = Inr format_reward"
    unfolding compute_score_def dot by auto
  moreover have "g \<noteq> [] \<Longrightarrow>
      compute_score ''#### ,'' g ''strict'' format_reward correct_reward = Inr format_reward"
    unfolding compute_score_def comma by auto
  ultimately show ?thesis
    using dot comma flex by (simp add: INVALID_ANSWERS_def)
qed

theorem strict_keeps_placeholders_witness:
  "compute_score ''#### .'' ''42'' ''strict'' REWARD_FORMAT_CORRECT REWARD_CORRECT
     = Inr REWARD_FORMAT_CORRECT
 \<and> compute_score ''#### ,'' ''42'' ''strict'' REWARD_FORMAT_CORRECT REWARD_CORRECT
     = Inr REWARD_FORMAT_CORRECT
 \<and> compute_score ''#### .'' ''42'' ''flexible'' REWARD_FORMAT_CORRECT REWARD_CORRECT
     = Inr REWARD_NO_ANSWER"
proof -
  have g: "''42'' \<noteq> [] \<and> ''42'' \<noteq> ''.''" by simp
  from strict_keeps_placeholders [of "''42''" REWARD_FORMAT_CORRECT REWARD_CORRECT] g
  have "compute_score ''#### .'' ''42'' ''strict'' REWARD_FORMAT_CORRECT REWARD_CORRECT
     = Inr REWARD_FORMAT_CORRECT"
    and "compute_score ''#### ,'' ''42'' ''strict'' REWARD_FORMAT_CORRECT REWARD_CORRECT
     = Inr REWARD_FORMAT_CORRECT"
    and "extract_solution ''#### .'' ''flexible'' = Inr None"
    by blast+
  then show ?thesis by (simp add: compute_score_def)
qed

subsection \<open>The range of the rewards\<close>

text \<open>
  Claim C10 as stated fails for a method that is neither \<^verbatim>\<open>"strict"\<close> nor
  \<^verbatim>\<open>"flexible"\<close>: on two non-empty strings \<^verbatim>\<open>compute_score\<close> with the default
  rewards returns no reward, it raises.
\<close>

theorem compute_score_invalid_mode_counterexample:
  "compute_score ''#### 42'' ''42'' ''lenient'' REWARD_FORMAT_CORRECT REWARD_CORRECT
     = Inl (InvalidMethod ''lenient'')"
  by (simp add: compute_score_def extract_solution_def)

text \<open>
  Claim C10, for the valid methods. With the default reward arguments,
  \<^verbatim>\<open>compute_score\<close> returns one of -0.3, 0.3 and 1.0 for every pair of strings when
  the method is valid or one of the strings is empty, and each of the three values is
  returned on some input; for any other method on two non-empty strings it raises the
  invalid-method error. \<^verbatim>\<open>REWARD_WRONG\<close> (0.0) is returned neither by such a call nor
  as an element of a result of \<^verbatim>\<open>trl_reward_fn\<close>.
\<close>

theorem rewards_three_values_never_wrong:
  "(m \<in> {''strict'', ''flexible''} \<or> c = [] \<or> g = [] \<longrightarrow>
      (\<exists>r. compute_score c g m REWARD_FORMAT_CORRECT REWARD_CORRECT = Inr r
          \<and> r \<in> {- 0.3, 0.3, 1.0} \<and> r \<noteq> REWARD_WRONG))
 \<and> (m \<notin> {''strict'', ''flexible''} \<and> c \<noteq> [] \<and> g \<noteq> [] \<longrightarrow>
      compute_score c g m REWARD_FORMAT_CORRECT REWARD_CORRECT = Inl (InvalidMethod m))
 \<and> (\<forall>rewards. trl_reward_fn prompts completions solution = Inr rewards \<longrightarrow>
      (\<forall>r \<in> set rewards. r \<in> {- 0.3, 0.3, 1.0} \<and> r \<noteq> REWARD_WRONG))
 \<and> REWARD_WRONG = 0.0
 \<and> compute_score ''no answer here'' ''42'' ''strict'' REWARD_FORMAT_CORRECT REWARD_CORRECT
      = Inr (- 0.3)
 \<and> compute_score ''#### 41'' ''42'' ''strict'' REWARD_FORMAT_CORRECT REWARD_CORRECT = Inr 0.3
 \<and> compute_score ''#### 42'' ''42'' ''strict'' REWARD_FORMAT_CORRECT REWARD_CORRECT = Inr 1.0"
proof (intro conjI impI allI ballI)
  show "compute_score ''no answer here'' ''42'' ''strict'' REWARD_FORMAT_CORRECT REWARD_CORRECT
      = Inr (- 0.3)"
    by (simp add: compute_score_def run_defs reward_values)
next
  show "compute_score ''#### 41'' ''42'' ''strict'' REWARD_FORMAT_CORRECT REWARD_CORRECT = Inr 0.3"
    by (simp add: compute_score_def run_defs reward_values)
next
  show "compute_score ''#### 42'' ''42'' ''strict'' REWARD_FORMAT_CORRECT REWARD_CORRECT = Inr 1.0"
    by (simp add: compute_score_def run_defs reward_values)
next
  assume "m \<in> {''strict'', ''flexible''} \<or> c = [] \<or> g = []"
  then have "m = ''strict'' \<or> m = ''flexible'' \<or> c = [] \<or> g = []" by auto
  from compute_score_range [OF this]
  obtain r where "compute_score c g m REWARD_FORMAT_CORRECT REWARD_CORRECT = Inr r"
    and "r \<in> {REWARD_NO_ANSWER, REWARD_FORMAT_CORRECT, REWARD_CORRECT}" by blast
  then show "\<exists>r. compute_score c g m REWARD_FORMAT_CORRECT REWARD_CORRECT = Inr r
          \<and> r \<in> {- 0.3, 0.3, 1.0} \<and> r \<noteq> REWARD_WRONG"
    by (auto simp: reward_values)
next
  assume "m \<notin> {''strict'', ''flexible''} \<and> c \<noteq> [] \<and> g \<noteq> []"
  then show "compute_score c g m REWARD_FORMAT_CORRECT REWARD_CORRECT = Inl (InvalidMethod m)"
    by (simp add: compute_score_def extract_solution_def)
next
  show "REWARD_WRONG = 0.0" by (simp add: REWARD_WRONG_def)
next
  fix rewards r
  assume res: "trl_reward_fn prompts completions solution = Inr rewards" and r: "r \<in> set rewards"
  have "r \<in> {REWARD_NO_ANSWER, REWARD_FORMAT_CORRECT, REWARD_CORRECT}"
  proof (cases "length completions = length solution")
    case False
    with res show ?thesis by (simp add: trl_reward_fn_def reward_batch_def)
  next
    case True
    have "\<forall>p \<in> set (zip completions solution). \<exists>r. strict_score (fst p) (snd p) = Inr r"
      using strict_score_returns by blast
    from score_loop_append [OF this, of "[]"]
    obtain rs where loop: "score_loop strict_score (zip completions solution) [] = Inr rs"
      and rs: "map Inr rs = map (\<lambda>p. strict_score (fst p) (snd p)) (zip completions solution)"
      by auto
    from True res loop r have "r \<in> set rs"
      by (cases "completions = []") (auto simp: trl_reward_fn_def reward_batch_def)
    then have "(Inr r :: error + real) \<in> set (map Inr rs)" by simp
    with rs obtain p where "strict_score (fst p) (snd p) = Inr r" by auto
    with strict_score_returns [of "fst p" "snd p"] show ?thesis by auto
  qed
  then show "r \<in> {- 0.3, 0.3, 1.0}" and "r \<noteq> REWARD_WRONG"
    by (auto simp: reward_values)
qed

theorem rewards_three_values_never_wrong_witness:
  "compute_score ''no answer here'' ''42'' ''strict'' REWARD_FORMAT_CORRECT REWARD_CORRECT = Inr (- 0.3)
 \<and> compute_score ''so 41'' ''42'' ''flexible'' REWARD_FORMAT_CORRECT REWARD_CORRECT = Inr 0.3
 \<and> compute_score ''#### 42'' ''42'' ''strict'' REWARD_FORMAT_CORRECT REWARD_CORRECT = Inr 1.0
 \<and> compute_score ''#### 42'' ''42'' ''lenient'' REWARD_FORMAT_CORRECT REWARD_CORRECT
      = Inl (InvalidMethod ''lenient'')
 \<and> trl_reward_fn [] [''#### 42'', ''#### 41'', ''none''] [''42'', ''42'', ''42'']
      = Inr [1.0, 0.3, - 0.3]"
proof -
  have a: "compute_score ''no answer here'' ''42'' ''strict'' REWARD_FORMAT_CORRECT REWARD_CORRECT = Inr (- 0.3)"
    by (simp add: compute_score_def run_defs reward_values)
  have b: "compute_score ''so 41'' ''42'' ''flexible'' REWARD_FORMAT_CORRECT REWARD_CORRECT = Inr 0.3"
    by (simp add: compute_score_def run_defs reward_values)
  have c: "compute_score ''#### 42'' ''42'' ''strict'' REWARD_FORMAT_CORRECT REWARD_CORRECT = Inr 1.0"
    by (simp add: compute_score_def run_defs reward_values)
  have d: "trl_reward_fn [] [''#### 42'', ''#### 41'', ''none''] [''42'', ''42'', ''42'']
      = Inr [1.0, 0.3, - 0.3]"
    by (simp add: trl_reward_fn_def reward_batch_def strict_score_def compute_score_def run_defs reward_values)
  have m: "''lenient'' \<notin> {''strict'', ''flexible''} \<and> ''#### 42'' \<noteq> [] \<and> ''42'' \<noteq> []"
    by simp
  note imp = rewards_three_values_never_wrong
    [of "''lenient''" "''#### 42''" "''42''", THEN conjunct2, THEN conjunct1]
  from imp m
  have e: "compute_score ''#### 42'' ''42'' ''lenient'' REWARD_FORMAT_CORRECT REWARD_CORRECT
      = Inl (InvalidMethod ''lenient'')"
    by (rule mp)
  show ?thesis
    by (intro conjI) (fact a, fact b, fact c, fact e, fact d)
qed

end
